theory Spec2Isabelle
  imports Complex_Main "HOL-Library.Multiset"
begin

section \<open>Edit-distance matcher (api/autocomplete.py)\<close>

text \<open>
  Python strings are modelled as lists of code points below 256, natural numbers as
  \<open>nat\<close>. The inner loop of \<open>levenshtein_distance\<close> appends one cell to
  \<open>current_row\<close> for each \<open>(j, c2)\<close> of \<open>enumerate(s2)\<close>; the outer loop replaces
  \<open>previous_row\<close> by the finished row for each \<open>(i, c1)\<close> of \<open>enumerate(s1)\<close>.
\<close>

definition lev_cell :: "nat list \<Rightarrow> char \<Rightarrow> nat \<times> char \<Rightarrow> nat list \<Rightarrow> nat list" where
  "lev_cell previous_row c1 jc current_row =
     (case jc of (j, c2) \<Rightarrow>
        let insertions = previous_row ! (j + 1) + 1;
            deletions = current_row ! j + 1;
            substitutions = previous_row ! j + (if c1 \<noteq> c2 then 1 else 0)
        in current_row @ [min insertions (min deletions substitutions)])"

definition lev_row :: "string \<Rightarrow> nat \<times> char \<Rightarrow> nat list \<Rightarrow> nat list" where
  "lev_row s2 ic previous_row =
     (case ic of (i, c1) \<Rightarrow> fold (lev_cell previous_row c1) (enumerate 0 s2) [i + 1])"

function levenshtein_distance :: "string \<Rightarrow> string \<Rightarrow> nat" where
  "levenshtein_distance s1 s2 =
     (if length s1 < length s2 then levenshtein_distance s2 s1
      else if length s2 = 0 then length s1
      else last (fold (lev_row s2) (enumerate 0 s1) [0..<length s2 + 1]))"
  by pat_completeness auto
termination
  by (relation "measure (\<lambda>(s1, s2). if length s1 < length s2 then 1 else 0)") auto

declare levenshtein_distance.simps [simp del]

text \<open>
  The reference recurrence of the edit distance, read from the last character backwards
  (the arguments are the reversed strings), used to state what each row holds.
\<close>

fun ed :: "'a list \<Rightarrow> 'a list \<Rightarrow> nat" where
  "ed [] ys = length ys"
| "ed xs [] = length xs"
| "ed (x # xs) (y # ys) =
     min (ed xs (y # ys) + 1) (min (ed (x # xs) ys + 1) (ed xs ys + (if x \<noteq> y then 1 else 0)))"

section \<open>Adaptive re-ranking engine (reranking.py)\<close>

definition MAX_BOOST :: real where
  "MAX_BOOST = 0.5"

definition BOOST_WEIGHT :: real where
  "BOOST_WEIGHT = 0.1"

definition calculate_boost :: "int \<Rightarrow> real" where
  "calculate_boost selection_count =
     (if selection_count \<le> 0 then 0.0
      else let log_boost = log 10 (of_int (selection_count + 1)) * BOOST_WEIGHT
           in min log_boost MAX_BOOST)"

text \<open>
  \<open>round(x, ndigits)\<close> of Python: the nearest multiple of \<open>10 ^ (- ndigits)\<close>, a tie going
  to the even one.
\<close>

definition py_round :: "real \<Rightarrow> nat \<Rightarrow> real" where
  "py_round x ndigits =
     (let y = x * 10 ^ ndigits; f = \<lfloor>y\<rfloor>; d = y - of_int f
      in of_int (if d < 1 / 2 then f else if 1 / 2 < d then f + 1
                 else if even f then f else f + 1) / 10 ^ ndigits)"

text \<open>
  A search result is a dictionary. The keys the engine reads or writes are fields of the
  record, \<open>None\<close> standing for an absent key; every other key of the dictionary is in
  the record's extension.
\<close>

record candidate =
  code :: "string option"
  score :: "real option"
  final_score :: "real option"
  boost_applied :: "real option"
  selection_count :: "int option"

definition counts_get :: "(string \<rightharpoonup> int) \<Rightarrow> string \<Rightarrow> int" where
  "counts_get selection_counts c = (case selection_counts c of Some n \<Rightarrow> n | None \<Rightarrow> 0)"

definition boost_item :: "(string \<rightharpoonup> int) \<Rightarrow> 'a candidate_scheme \<Rightarrow> 'a candidate_scheme" where
  "boost_item selection_counts item =
     (case candidate.code item of
        None \<Rightarrow> item
      | Some c \<Rightarrow>
          if c = [] then item
          else let base_score = (case candidate.score item of Some s \<Rightarrow> s | None \<Rightarrow> 0.5);
                   n = counts_get selection_counts c;
                   boost = calculate_boost n
               in item\<lparr>final_score := Some (base_score + boost),
                        boost_applied := Some (py_round boost 3),
                        selection_count := Some n\<rparr>)"

definition rank_key :: "'a candidate_scheme \<Rightarrow> real" where
  "rank_key x =
     (case final_score x of
        Some f \<Rightarrow> f
      | None \<Rightarrow> (case candidate.score x of Some s \<Rightarrow> s | None \<Rightarrow> 0))"

text \<open>
  \<open>results.sort(key=..., reverse=True)\<close> is a stable sort into descending order of the key:
  elements with equal keys keep their order. It is the stable ascending sort on the
  negated key.
\<close>

definition apply_boost_to_results ::
  "'a candidate_scheme list \<Rightarrow> (string \<rightharpoonup> int) \<Rightarrow> 'a candidate_scheme list" where
  "apply_boost_to_results results selection_counts =
     sort_key (\<lambda>x. - rank_key x) (map (boost_item selection_counts) results)"

definition has_code :: "'a candidate_scheme \<Rightarrow> bool" where
  "has_code item = (case candidate.code item of None \<Rightarrow> False | Some c \<Rightarrow> c \<noteq> [])"

definition base_score_of :: "'a candidate_scheme \<Rightarrow> real" where
  "base_score_of item = (case candidate.score item of Some s \<Rightarrow> s | None \<Rightarrow> 0.5)"

definition count_of :: "(string \<rightharpoonup> int) \<Rightarrow> 'a candidate_scheme \<Rightarrow> int" where
  "count_of selection_counts item =
     (case candidate.code item of None \<Rightarrow> 0 | Some c \<Rightarrow> counts_get selection_counts c)"

definition other_fields :: "'a candidate_scheme \<Rightarrow> string option \<times> real option \<times> 'a" where
  "other_fields item = (candidate.code item, candidate.score item, candidate.more item)"

definition mk_candidate :: "string option \<Rightarrow> real option \<Rightarrow> candidate" where
  "mk_candidate c s =
     \<lparr>code = c, score = s, final_score = None, boost_applied = None, selection_count = None\<rparr>"

section \<open>Cascading retrieval pipeline (search.py)\<close>

text \<open>
  The globals of the module, loaded from the catalog and the index files, and the library
  calls it makes on them are the fields of one record: \<open>get_scores\<close> is
  \<open>bm25.get_scores\<close>, \<open>transform\<close> is \<open>tfidf_vectorizer.transform\<close> on the one query,
  \<open>encode\<close> is \<open>embedder.encode\<close> on the one query, \<open>cos_sim\<close> is \<open>util.cos_sim\<close>
  against one row, \<open>argsort\<close> is \<open>np.argsort\<close>. Scores are real numbers.
\<close>

record search_index =
  codes :: "string list"
  terms :: "string list"
  get_scores :: "string list \<Rightarrow> real list"
  transform :: "string \<Rightarrow> real list"
  tfidf_matrix :: "real list list"
  embeddings :: "real list list"
  encode :: "string \<Rightarrow> real list"
  cos_sim :: "real list \<Rightarrow> real list \<Rightarrow> real"
  argsort :: "real list \<Rightarrow> nat list"

datatype error = IndexError | KeyError

record hit =
  hit_code :: string
  hit_term :: string
  hit_score :: real

text \<open>\<open>str.lower\<close> and \<open>str.split\<close> (no argument) on code points below 256.\<close>

definition lower_char :: "char \<Rightarrow> char" where
  "lower_char c =
     (let n = (of_char c :: nat)
      in if (65 \<le> n \<and> n \<le> 90) \<or> (192 \<le> n \<and> n \<le> 222 \<and> n \<noteq> 215)
         then char_of (n + 32) else c)"

definition lower :: "string \<Rightarrow> string" where
  "lower text = map lower_char text"

definition isspace :: "char \<Rightarrow> bool" where
  "isspace c =
     (let n = (of_char c :: nat)
      in (9 \<le> n \<and> n \<le> 13) \<or> (28 \<le> n \<and> n \<le> 32) \<or> n = 133 \<or> n = 160)"

fun split_from :: "string \<Rightarrow> string \<Rightarrow> string list" where
  "split_from word [] = (if word = [] then [] else [word])"
| "split_from word (c # cs) =
     (if isspace c then (if word = [] then split_from [] cs else word # split_from [] cs)
      else split_from (word @ [c]) cs)"

definition split :: "string \<Rightarrow> string list" where
  "split text = split_from [] text"

definition dot :: "real list \<Rightarrow> real list \<Rightarrow> real" where
  "dot xs ys = sum_list (map2 (*) xs ys)"

definition bm25_search :: "search_index \<Rightarrow> string \<Rightarrow> nat \<Rightarrow> nat list" where
  "bm25_search ix query top_k =
     (let tokenized = split (lower query);
          scores = get_scores ix tokenized;
          top_ids = take top_k (rev (argsort ix scores))
      in top_ids)"

definition tfidf_rerank :: "search_index \<Rightarrow> string \<Rightarrow> nat list \<Rightarrow> nat \<Rightarrow> error + nat list" where
  "tfidf_rerank ix query candidate_ids top_k =
     (let q_vec = transform ix query
      in if \<exists>i\<in>set candidate_ids. length (tfidf_matrix ix) \<le> i then Inl IndexError
         else let sub_matrix = map (\<lambda>i. tfidf_matrix ix ! i) candidate_ids;
                  scores = map (\<lambda>row. dot row q_vec) sub_matrix;
                  top_local = take top_k (rev (argsort ix scores))
              in if \<exists>i\<in>set top_local. length candidate_ids \<le> i then Inl IndexError
                 else Inr (map (\<lambda>i. candidate_ids ! i) top_local))"

definition semantic_rerank :: "search_index \<Rightarrow> string \<Rightarrow> nat list \<Rightarrow> nat \<Rightarrow> error + hit list" where
  "semantic_rerank ix query candidate_ids top_k =
     (let q_emb = encode ix query
      in if \<exists>i\<in>set candidate_ids. length (embeddings ix) \<le> i then Inl IndexError
         else let sub_emb = map (\<lambda>i. embeddings ix ! i) candidate_ids;
                  scores = map (cos_sim ix q_emb) sub_emb;
                  top_local = take top_k (rev (argsort ix scores))
              in if \<exists>i\<in>set top_local.
                      length candidate_ids \<le> i \<or> length (codes ix) \<le> candidate_ids ! i
                      \<or> length (terms ix) \<le> candidate_ids ! i
                 then Inl IndexError
                 else Inr (map (\<lambda>i. \<lparr>hit_code = codes ix ! (candidate_ids ! i),
                                       hit_term = terms ix ! (candidate_ids ! i),
                                       hit_score = scores ! i\<rparr>) top_local))"

text \<open>\<open>search_siddha\<close> returns the dictionary with the one key \<open>candidates\<close>: its value.\<close>

definition search_siddha :: "search_index \<Rightarrow> string \<Rightarrow> error + hit list" where
  "search_siddha ix query =
     (let bm25_ids = bm25_search ix query 100
      in case tfidf_rerank ix query bm25_ids 60 of
           Inl e \<Rightarrow> Inl e
         | Inr tfidf_ids \<Rightarrow> semantic_rerank ix query tfidf_ids 10)"

text \<open>
  What \<open>np.argsort\<close> promises: the indices of its argument, each once, in ascending order
  of the values. A stable sort of the indices is one such function.
\<close>

definition argsort_perm :: "(real list \<Rightarrow> nat list) \<Rightarrow> bool" where
  "argsort_perm f = (\<forall>xs. mset (f xs) = mset [0..<length xs])"

definition argsort_ok :: "(real list \<Rightarrow> nat list) \<Rightarrow> bool" where
  "argsort_ok f = (argsort_perm f \<and> (\<forall>xs. sorted (map (\<lambda>i. xs ! i) (f xs))))"

definition stable_argsort :: "real list \<Rightarrow> nat list" where
  "stable_argsort xs = sort_key (\<lambda>i. xs ! i) [0..<length xs]"

text \<open>The index triple of a catalog is aligned: every table has one row per document.\<close>

definition aligned :: "search_index \<Rightarrow> bool" where
  "aligned ix =
     (length (terms ix) = length (codes ix)
      \<and> length (tfidf_matrix ix) = length (codes ix)
      \<and> length (embeddings ix) = length (codes ix)
      \<and> (\<forall>tokens. length (get_scores ix tokens) = length (codes ix)))"

definition two_docs :: "real list \<Rightarrow> search_index" where
  "two_docs scores =
     \<lparr>codes = [''SP42'', ''SP43''], terms = [''Fever disorder'', ''Fever with chills''],
      get_scores = (\<lambda>tokens. scores), transform = (\<lambda>q. [1]),
      tfidf_matrix = [[1], [2]], embeddings = [[1], [3]], encode = (\<lambda>q. [1]),
      cos_sim = dot, argsort = stable_argsort\<rparr>"

section \<open>Fuzzy autocomplete matcher (api/autocomplete.py)\<close>

text \<open>
  \<open>normalize_text\<close> is \<open>re.sub(r"[^a-zA-Z0-9 ]", "", text.lower())\<close>: the text is lowered and
  every character that is not an ASCII letter, a digit or a space is removed.
\<close>

definition keep_char :: "char \<Rightarrow> bool" where
  "keep_char c =
     (let n = (of_char c :: nat)
      in (97 \<le> n \<and> n \<le> 122) \<or> (65 \<le> n \<and> n \<le> 90) \<or> (48 \<le> n \<and> n \<le> 57) \<or> n = 32)"

definition normalize_text :: "string \<Rightarrow> string" where
  "normalize_text text = filter keep_char (lower text)"

text \<open>
  A catalog entry is a dictionary with the keys \<open>code\<close>, \<open>term\<close> and \<open>definition\<close>; a
  fuzzy suggestion is a dictionary with the keys \<open>item\<close>, \<open>distance\<close> and
  \<open>suggestion_text\<close>.
\<close>

record item =
  item_code :: string
  item_term :: string
  item_definition :: string

record suggestion =
  sug_item :: item
  sug_distance :: nat
  suggestion_text :: string

text \<open>
  The dictionary \<open>autocomplete_search\<close> returns is the list of its keys with their
  values, in the order of the dictionary display.
\<close>

datatype rvalue = Items "item list" | Suggestions "suggestion list" | Flag bool

definition startswith :: "string \<Rightarrow> string \<Rightarrow> bool" where
  "startswith s p = (take (length p) s = p)"

fun contains :: "string \<Rightarrow> string \<Rightarrow> bool" where
  "contains [] p = (p = [])"
| "contains (c # cs) p = (startswith (c # cs) p \<or> contains cs p)"

definition fuzzy_step :: "string \<Rightarrow> nat \<Rightarrow> item \<Rightarrow> (item \<times> nat) list \<Rightarrow> (item \<times> nat) list" where
  "fuzzy_step query_norm max_distance item matches =
     (let term_norm = normalize_text (item_term item);
          code_norm = normalize_text (item_code item);
          term_distance = levenshtein_distance query_norm term_norm;
          code_distance = levenshtein_distance query_norm code_norm;
          term_words = split term_norm;
          word_distances =
            map (levenshtein_distance query_norm) (filter (\<lambda>word. 2 < length word) term_words);
          best_distance =
            (if word_distances \<noteq> [] then min term_distance (min code_distance (min_list word_distances))
             else min term_distance code_distance)
      in if best_distance \<le> max_distance then matches @ [(item, best_distance)] else matches)"

definition fuzzy_match_terms :: "string \<Rightarrow> item list \<Rightarrow> nat \<Rightarrow> (item \<times> nat) list" where
  "fuzzy_match_terms query dataset max_distance =
     (let query_norm = normalize_text query;
          matches = fold (fuzzy_step query_norm max_distance) dataset []
      in sort_key snd matches)"

definition prefix_step :: "string \<Rightarrow> item \<Rightarrow> item list \<Rightarrow> item list" where
  "prefix_step query_norm item results =
     (let term_norm = normalize_text (item_term item);
          code_norm = normalize_text (item_code item);
          def_norm = normalize_text (item_definition item)
      in if startswith term_norm query_norm \<or> startswith code_norm query_norm
            \<or> startswith def_norm query_norm
         then results @ [item] else results)"

definition substring_step :: "string \<Rightarrow> item \<Rightarrow> item list \<Rightarrow> item list" where
  "substring_step query_norm item results =
     (let blob = normalize_text (item_term item @ '' '' @ item_code item @ '' '' @ item_definition item)
      in if contains blob query_norm \<and> item \<notin> set results then results @ [item] else results)"

definition local_matches :: "string \<Rightarrow> item list \<Rightarrow> item list" where
  "local_matches query_norm dataset =
     (let results = fold (prefix_step query_norm) dataset []
      in if length results < 20 then fold (substring_step query_norm) dataset results
         else results)"

definition suggest :: "item \<times> nat \<Rightarrow> suggestion" where
  "suggest m =
     (case m of (item, distance) \<Rightarrow>
        \<lparr>sug_item = item, sug_distance = distance,
         suggestion_text = ''Did you mean '' @ [CHR 0x27] @ item_term item @ [CHR 0x27] @ ''?''\<rparr>)"

definition autocomplete_search :: "string \<Rightarrow> item list \<Rightarrow> (string \<times> rvalue) list" where
  "autocomplete_search query dataset =
     (let query_norm = normalize_text query
      in if length query_norm < 2
         then [(''results'', Items []), (''fuzzy_suggestions'', Suggestions [])]
         else
           let results = local_matches query_norm dataset;
               (results, fuzzy_suggestions) =
                 (if length results = 0 \<and> 3 \<le> length query_norm
                  then let fuzzy_matches = fuzzy_match_terms query_norm dataset 2
                       in if fuzzy_matches \<noteq> []
                          then (map fst (take 10 fuzzy_matches), map suggest (take 5 fuzzy_matches))
                          else (results, [])
                  else (results, []))
           in [(''results'', Items (take 20 results)),
               (''fuzzy_suggestions'', Suggestions fuzzy_suggestions),
               (''has_fuzzy'', Flag (0 < length fuzzy_suggestions))])"

definition fever_item :: item where
  "fever_item =
     \<lparr>item_code = ''SP42'', item_term = ''Fever disorder'',
      item_definition = ''High body temperature''\<rparr>"


text \<open>
  The fuzzy stage in the words of its description: the distances of a document are those
  of the query to its normalized term, to its normalized code and to every word of the
  normalized term longer than 2; the document's distance is their minimum; documents
  within distance 2 are kept, in ascending order of distance.
\<close>

definition candidate_distances :: "string \<Rightarrow> item \<Rightarrow> nat list" where
  "candidate_distances q item =
     levenshtein_distance q (normalize_text (item_term item))
     # levenshtein_distance q (normalize_text (item_code item))
     # map (levenshtein_distance q)
         (filter (\<lambda>word. 2 < length word) (split (normalize_text (item_term item))))"

definition best_distance :: "string \<Rightarrow> item \<Rightarrow> nat" where
  "best_distance q item = Min (set (candidate_distances q item))"

definition spec_fuzzy :: "string \<Rightarrow> item list \<Rightarrow> (item \<times> nat) list" where
  "spec_fuzzy q dataset =
     sort_key snd (filter (\<lambda>m. snd m \<le> 2) (map (\<lambda>item. (item, best_distance q item)) dataset))"

text \<open>
  Each route of the module reads the three keys of the returned dictionary by subscript,
  which raises \<open>KeyError\<close> on an absent key.
\<close>

definition getitem :: "(string \<times> rvalue) list \<Rightarrow> string \<Rightarrow> error + rvalue" where
  "getitem d k = (case map_of d k of None \<Rightarrow> Inl KeyError | Some v \<Rightarrow> Inr v)"

definition route_fields :: "string \<Rightarrow> item list \<Rightarrow> error + (rvalue \<times> rvalue \<times> rvalue)" where
  "route_fields q dataset =
     (let search_result = autocomplete_search q dataset
      in case getitem search_result ''results'' of
           Inl e \<Rightarrow> Inl e
         | Inr matches \<Rightarrow>
             (case getitem search_result ''fuzzy_suggestions'' of
                Inl e \<Rightarrow> Inl e
              | Inr fuzzy_suggestions \<Rightarrow>
                  (case getitem search_result ''has_fuzzy'' of
                     Inl e \<Rightarrow> Inl e
                   | Inr has_fuzzy \<Rightarrow> Inr (matches, fuzzy_suggestions, has_fuzzy))))"

section \<open>Edit distance: rows of the table\<close>

lemma ed_Nil2: "ed xs [] = length xs"
  by (cases xs) simp_all

lemma ed_sym: "ed xs ys = ed ys xs"
proof (induction xs ys rule: ed.induct)
  case (1 ys)
  show ?case by (simp add: ed_Nil2)
next
  case (2 xs)
  show ?case by (simp add: ed_Nil2)
next
  case (3 x xs y ys)
  then show ?case by (simp add: min.commute min.left_commute eq_commute)
qed

lemma ed_refl: "ed xs xs = 0"
  by (induction xs) simp_all

lemma lev_cells:
  assumes "\<forall>j\<le>length ys. previous_row ! j = ed p (rev (take j ys))"
  shows "fold (lev_cell previous_row c) (enumerate 0 ys) [Suc (length p)]
           = map (\<lambda>j. ed (c # p) (rev (take j ys))) [0..<Suc (length ys)]"
  using assms
proof (induction ys rule: rev_induct)
  case Nil
  show ?case by simp
next
  case (snoc y ys)
  have prev: "\<forall>j\<le>length ys. previous_row ! j = ed p (rev (take j ys))"
  proof (intro allI impI)
    fix j assume j: "j \<le> length ys"
    then have "previous_row ! j = ed p (rev (take j (ys @ [y])))"
      using snoc.prems by simp
    with j show "previous_row ! j = ed p (rev (take j ys))" by simp
  qed
  have cur: "fold (lev_cell previous_row c) (enumerate 0 ys) [Suc (length p)]
               = map (\<lambda>j. ed (c # p) (rev (take j ys))) [0..<Suc (length ys)]"
    using snoc.IH [OF prev] .
  have p0: "previous_row ! length ys = ed p (rev ys)"
    using prev by simp
  have p1: "previous_row ! (length ys + 1) = ed p (y # rev ys)"
    using snoc.prems by simp
  have c0: "map (\<lambda>j. ed (c # p) (rev (take j ys))) [0..<Suc (length ys)] ! length ys
              = ed (c # p) (rev ys)"
    by (simp add: nth_append)
  have old: "map (\<lambda>j. ed (c # p) (rev (take j (ys @ [y])))) [0..<Suc (length ys)]
               = map (\<lambda>j. ed (c # p) (rev (take j ys))) [0..<Suc (length ys)]"
    by (rule map_cong) auto
  have "fold (lev_cell previous_row c) (enumerate 0 (ys @ [y])) [Suc (length p)]
          = lev_cell previous_row c (length ys, y)
              (map (\<lambda>j. ed (c # p) (rev (take j ys))) [0..<Suc (length ys)])"
    by (simp add: enumerate_append_eq cur del: upt_Suc)
  also have "\<dots> = map (\<lambda>j. ed (c # p) (rev (take j ys))) [0..<Suc (length ys)]
                    @ [ed (c # p) (y # rev ys)]"
    unfolding lev_cell_def Let_def prod.case c0 p0 p1 by (simp del: upt_Suc)
  also have "\<dots> = map (\<lambda>j. ed (c # p) (rev (take j (ys @ [y])))) [0..<Suc (length (ys @ [y]))]"
    using old by simp
  finally show ?case .
qed

lemma lev_rows:
  "fold (lev_row s2) (enumerate 0 xs) [0..<Suc (length s2)]
     = map (\<lambda>j. ed (rev xs) (rev (take j s2))) [0..<Suc (length s2)]"
proof (induction xs rule: rev_induct)
  case Nil
  have "map (\<lambda>j. ed [] (rev (take j s2))) [0..<Suc (length s2)] = map (\<lambda>j. j) [0..<Suc (length s2)]"
    by (rule map_cong) auto
  then show ?case by (simp del: upt_Suc add: map_idI)
next
  case (snoc x xs)
  have "fold (lev_row s2) (enumerate 0 (xs @ [x])) [0..<Suc (length s2)]
          = lev_row s2 (length xs, x) (map (\<lambda>j. ed (rev xs) (rev (take j s2))) [0..<Suc (length s2)])"
    by (simp add: enumerate_append_eq snoc.IH del: upt_Suc)
  also have "\<dots> = map (\<lambda>j. ed (x # rev xs) (rev (take j s2))) [0..<Suc (length s2)]"
    unfolding lev_row_def prod.case
    using lev_cells [of s2 "map (\<lambda>j. ed (rev xs) (rev (take j s2))) [0..<Suc (length s2)]" "rev xs" x]
    by (simp add: nth_append del: upt_Suc)
  finally show ?case by (simp del: upt_Suc)
qed

lemma levenshtein_distance_ge:
  assumes "length s2 \<le> length s1"
  shows "levenshtein_distance s1 s2 = ed (rev s1) (rev s2)"
proof (cases "s2 = []")
  case True
  then show ?thesis by (simp add: levenshtein_distance.simps ed_Nil2)
next
  case False
  have "last (map (\<lambda>j. ed (rev s1) (rev (take j s2))) [0..<Suc (length s2)])
          = ed (rev s1) (rev s2)"
    by (simp add: last_map)
  with assms False show ?thesis
    by (subst levenshtein_distance.simps) (simp add: lev_rows del: upt_Suc)
qed

lemma levenshtein_distance_ed: "levenshtein_distance s1 s2 = ed (rev s1) (rev s2)"
proof (cases "length s1 < length s2")
  case True
  then have "levenshtein_distance s1 s2 = levenshtein_distance s2 s1"
    by (subst levenshtein_distance.simps) simp
  also have "\<dots> = ed (rev s2) (rev s1)"
    using True by (simp add: levenshtein_distance_ge)
  finally show ?thesis by (simp add: ed_sym)
next
  case False
  then show ?thesis by (simp add: levenshtein_distance_ge)
qed

text \<open>
  C9. For every string \<open>x\<close>, \<open>levenshtein_distance x x = 0\<close>, and for every pair of
  strings the result does not depend on the order of the arguments, although the
  function swaps them by length before filling the table.
\<close>

theorem levenshtein_distance_refl_sym:
  "levenshtein_distance x x = 0 \<and> levenshtein_distance a b = levenshtein_distance b a"
proof
  show "levenshtein_distance x x = 0"
    by (simp add: levenshtein_distance_ed ed_refl)
  have "ed (rev a) (rev b) = ed (rev b) (rev a)"
    by (rule ed_sym)
  then show "levenshtein_distance a b = levenshtein_distance b a"
    by (simp add: levenshtein_distance_ed)
qed

section \<open>Re-ranking engine: boost and ordering\<close>

lemma py_round_zero: "py_round 0 n = 0"
  by (simp add: py_round_def)

lemma calculate_boost_nonneg_count:
  "0 \<le> c \<Longrightarrow> calculate_boost c = min 0.5 (log 10 (of_int c + 1) * 0.1)"
  by (cases "c = 0") (simp_all add: calculate_boost_def MAX_BOOST_def BOOST_WEIGHT_def min.commute)

lemma calculate_boost_pos:
  "0 < c \<Longrightarrow> calculate_boost c = min (log 10 (of_int c + 1) * 0.1) 0.5"
  by (simp add: calculate_boost_def MAX_BOOST_def BOOST_WEIGHT_def)

lemma calculate_boost_nonpos: "c \<le> 0 \<Longrightarrow> calculate_boost c = 0"
  by (simp add: calculate_boost_def)

lemma calculate_boost_ge0: "0 \<le> calculate_boost c"
proof (cases "0 < c")
  case True
  then have "0 \<le> log 10 (of_int c + 1)" by simp
  then have "0 \<le> min (log 10 (of_int c + 1) * 0.1) (0.5::real)" by simp
  with True show ?thesis by (simp only: calculate_boost_pos)
next
  case False
  then show ?thesis by (simp add: calculate_boost_nonpos)
qed

lemma calculate_boost_mono: "c \<le> d \<Longrightarrow> calculate_boost c \<le> calculate_boost d"
proof -
  assume cd: "c \<le> d"
  show ?thesis
  proof (cases "0 < c")
    case False
    then show ?thesis
      using calculate_boost_ge0 [of d] by (simp add: calculate_boost_nonpos)
  next
    case True
    with cd have d: "0 < d" by simp
    from True cd have "log 10 (of_int c + 1) \<le> log 10 (of_int d + 1)" by simp
    then have "log 10 (of_int c + 1) * 0.1 \<le> log 10 (of_int d + 1) * (0.1::real)" by simp
    then have "min (log 10 (of_int c + 1) * 0.1) 0.5 \<le> min (log 10 (of_int d + 1) * 0.1) (0.5::real)"
      by (rule min.mono) simp
    with True d show ?thesis by (simp only: calculate_boost_pos)
  qed
qed

lemma calculate_boost_le: "calculate_boost c \<le> 0.5"
proof (cases "0 < c")
  case True
  have "min (log 10 (of_int c + 1) * 0.1) 0.5 \<le> (0.5::real)" by (rule min.cobounded2)
  with True show ?thesis by (simp only: calculate_boost_pos)
next
  case False
  then show ?thesis by (simp add: calculate_boost_nonpos)
qed

text \<open>
  C2. For every non-negative selection count, \<open>calculate_boost\<close> is
  \<open>min 0.5 (log10 (count + 1) * 0.1)\<close>; the boost of 0 is 0, the boost does not decrease
  when the count grows, and it never exceeds 0.5.
\<close>

theorem calculate_boost_spec:
  "0 \<le> c \<Longrightarrow>
     calculate_boost c = min 0.5 (log 10 (of_int c + 1) * 0.1)
   \<and> calculate_boost 0 = 0
   \<and> (\<forall>d. c \<le> d \<longrightarrow> calculate_boost c \<le> calculate_boost d)
   \<and> calculate_boost c \<le> 0.5"
  using calculate_boost_nonneg_count [of c] calculate_boost_mono [of c] calculate_boost_le [of c]
    calculate_boost_nonpos [of 0]
  by simp

theorem calculate_boost_spec_witness:
  "(0::int) \<le> 9 \<and> calculate_boost 9 = 0.1 \<and> calculate_boost 0 = 0
   \<and> calculate_boost 9 \<le> calculate_boost 99 \<and> calculate_boost 9 \<le> 0.5"
  using calculate_boost_spec [of 9] by simp


lemma boost_item_frame:
  "candidate.code (boost_item counts c) = candidate.code c
   \<and> candidate.score (boost_item counts c) = candidate.score c
   \<and> candidate.more (boost_item counts c) = candidate.more c"
  by (simp add: boost_item_def Let_def split: option.split)

lemma boost_item_coded:
  "has_code c \<Longrightarrow>
     boost_item counts c =
       c\<lparr>final_score := Some (base_score_of c + calculate_boost (count_of counts c)),
         boost_applied := Some (py_round (calculate_boost (count_of counts c)) 3),
         selection_count := Some (count_of counts c)\<rparr>"
  by (auto simp: boost_item_def has_code_def base_score_of_def count_of_def Let_def
           split: option.splits)

lemma boost_item_uncoded: "\<not> has_code c \<Longrightarrow> boost_item counts c = c"
  by (auto simp: boost_item_def has_code_def split: option.splits)

lemma has_code_boost_item: "has_code (boost_item counts c) = has_code c"
  by (simp add: has_code_def boost_item_frame)

lemma rank_key_boost_item:
  "has_code c \<Longrightarrow>
     rank_key (boost_item counts c) = base_score_of c + calculate_boost (count_of counts c)"
  by (simp add: boost_item_coded rank_key_def)

lemma set_apply_boost:
  "set (apply_boost_to_results rs counts) = boost_item counts ` set rs"
  by (simp add: apply_boost_to_results_def)

lemma apply_boost_sorted:
  "sorted_wrt (\<lambda>a b. rank_key b \<le> rank_key a) (apply_boost_to_results rs counts)"
proof -
  have "sorted (map (\<lambda>x. - rank_key x) (apply_boost_to_results rs counts))"
    unfolding apply_boost_to_results_def by (rule sorted_sort_key)
  then show ?thesis by (simp add: sorted_map)
qed

lemma apply_boost_final_score:
  assumes "c \<in> set (apply_boost_to_results rs counts)" and "has_code c"
  shows "final_score c = Some (base_score_of c + calculate_boost (count_of counts c))"
proof -
  from assms(1) obtain c0 where c0: "c0 \<in> set rs" and c: "c = boost_item counts c0"
    by (auto simp: set_apply_boost)
  from assms(2) c have h: "has_code c0" by (simp add: has_code_boost_item)
  have same: "base_score_of c = base_score_of c0 \<and> count_of counts c = count_of counts c0"
    by (simp add: c base_score_of_def count_of_def boost_item_frame)
  show ?thesis
    by (simp add: same) (simp add: c boost_item_coded [OF h])
qed

lemma apply_boost_stable:
  "filter (\<lambda>c. rank_key c = k) (apply_boost_to_results rs counts)
     = filter (\<lambda>c. rank_key c = k) (map (boost_item counts) rs)"
proof -
  have "filter (\<lambda>c. - rank_key c = - k) (apply_boost_to_results rs counts)
          = filter (\<lambda>c. - rank_key c = - k) (map (boost_item counts) rs)"
    unfolding apply_boost_to_results_def by (rule sort_key_stable)
  then show ?thesis by simp
qed

lemma apply_boost_noop:
  assumes present: "\<forall>c\<in>set rs. candidate.score c \<noteq> None \<and> (has_code c \<or> final_score c = None)"
    and sorted: "sorted_wrt (\<lambda>a b. the (candidate.score b) \<le> the (candidate.score a)) rs"
    and zero: "\<forall>k n. counts k = Some n \<longrightarrow> n = 0"
  shows "apply_boost_to_results rs counts = map (boost_item counts) rs"
proof -
  have cnt: "count_of counts c = 0" for c :: "'a candidate_scheme"
    using zero by (auto simp: count_of_def counts_get_def split: option.splits)
  have key: "rank_key (boost_item counts c) = the (candidate.score c)" if "c \<in> set rs" for c
  proof (cases "has_code c")
    case True
    from present that obtain s where "candidate.score c = Some s" by auto
    then show ?thesis
      by (simp add: rank_key_boost_item [OF True] cnt base_score_of_def calculate_boost_nonpos)
  next
    case False
    with present that have "final_score c = None" by auto
    moreover from present that obtain s where "candidate.score c = Some s" by auto
    ultimately show ?thesis
      by (simp add: boost_item_uncoded [OF False] rank_key_def)
  qed
  have eq: "map (\<lambda>x. - rank_key x) (map (boost_item counts) rs)
          = map (\<lambda>c. - the (candidate.score c)) rs"
    by (simp add: key)
  have "sorted (map (\<lambda>c. - the (candidate.score c)) rs)"
    using sorted by (simp add: sorted_map)
  then have "sorted (map (\<lambda>x. - rank_key x) (map (boost_item counts) rs))"
    by (simp only: eq)
  then show ?thesis
    unfolding apply_boost_to_results_def by (rule sort_key_id_if_sorted)
qed

text \<open>
  C3, as stated, fails on the no-op: with no recorded selection at all, a list in
  descending order of \<open>score\<close> is reordered when a candidate without a code carries a
  \<open>final_score\<close> from before (it is placed by that value), and when a candidate with a
  code has no \<open>score\<close> (its final score is the default 0.5).
\<close>

theorem rerank_noop_counterexample:
  "sorted_wrt (\<lambda>a b. the (candidate.score b) \<le> the (candidate.score a))
     [mk_candidate (Some ''B'') (Some (4 / 5)),
      (mk_candidate None (Some (2 / 5)))\<lparr>final_score := Some 1\<rparr>]
   \<and> map candidate.code
       (apply_boost_to_results
          [mk_candidate (Some ''B'') (Some (4 / 5)),
           (mk_candidate None (Some (2 / 5)))\<lparr>final_score := Some 1\<rparr>]
          Map.empty)
       = [None, Some ''B'']
   \<and> map candidate.code
       (apply_boost_to_results
          [mk_candidate (Some ''B'') (Some (2 / 5)), mk_candidate (Some ''A'') None]
          Map.empty)
       = [Some ''A'', Some ''B'']"
  by (simp add: apply_boost_to_results_def boost_item_def mk_candidate_def counts_get_def
        calculate_boost_def rank_key_def py_round_zero)

text \<open>
  C3, amended. The list returned by \<open>apply_boost_to_results\<close> is in descending order of
  the sort key: for every candidate with a code its \<open>final_score\<close>, the base score plus
  the boost, otherwise a \<open>final_score\<close> it already carries, else its \<open>score\<close>, else 0.
  Candidates with equal keys keep their incoming order. A list in descending order of
  \<open>score\<close>, in which every candidate has a score and no candidate without a code carries
  a \<open>final_score\<close>, comes back in the same order when every selection count is zero.
\<close>

theorem apply_boost_sorted_stable:
  "sorted_wrt (\<lambda>a b. rank_key b \<le> rank_key a) (apply_boost_to_results rs counts)
   \<and> (\<forall>c\<in>set (apply_boost_to_results rs counts). has_code c \<longrightarrow>
          final_score c = Some (base_score_of c + calculate_boost (count_of counts c))
          \<and> rank_key c = base_score_of c + calculate_boost (count_of counts c))
   \<and> (\<forall>k. filter (\<lambda>c. rank_key c = k) (apply_boost_to_results rs counts)
            = filter (\<lambda>c. rank_key c = k) (map (boost_item counts) rs))
   \<and> ((\<forall>c\<in>set rs. candidate.score c \<noteq> None \<and> (has_code c \<or> final_score c = None))
        \<and> sorted_wrt (\<lambda>a b. the (candidate.score b) \<le> the (candidate.score a)) rs
        \<and> (\<forall>k n. counts k = Some n \<longrightarrow> n = 0)
      \<longrightarrow> apply_boost_to_results rs counts = map (boost_item counts) rs
          \<and> map candidate.code (apply_boost_to_results rs counts) = map candidate.code rs)"
proof (intro conjI ballI allI impI)
  show "sorted_wrt (\<lambda>a b. rank_key b \<le> rank_key a) (apply_boost_to_results rs counts)"
    by (rule apply_boost_sorted)
next
  fix c assume c: "c \<in> set (apply_boost_to_results rs counts)" "has_code c"
  then show fs: "final_score c = Some (base_score_of c + calculate_boost (count_of counts c))"
    by (rule apply_boost_final_score)
  then show "rank_key c = base_score_of c + calculate_boost (count_of counts c)"
    by (simp add: rank_key_def)
next
  fix k
  show "filter (\<lambda>c. rank_key c = k) (apply_boost_to_results rs counts)
          = filter (\<lambda>c. rank_key c = k) (map (boost_item counts) rs)"
    by (rule apply_boost_stable)
next
  assume h: "(\<forall>c\<in>set rs. candidate.score c \<noteq> None \<and> (has_code c \<or> final_score c = None))
        \<and> sorted_wrt (\<lambda>a b. the (candidate.score b) \<le> the (candidate.score a)) rs
        \<and> (\<forall>k n. counts k = Some n \<longrightarrow> n = 0)"
  from h have h1: "\<forall>c\<in>set rs. candidate.score c \<noteq> None \<and> (has_code c \<or> final_score c = None)"
    by (rule conjunct1)
  from h have h2: "sorted_wrt (\<lambda>a b. the (candidate.score b) \<le> the (candidate.score a)) rs"
    by (elim conjE)
  from h have h3: "\<forall>k n. counts k = Some n \<longrightarrow> n = 0"
    by (elim conjE)
  show eq: "apply_boost_to_results rs counts = map (boost_item counts) rs"
    using h1 h2 h3 by (rule apply_boost_noop)
  show "map candidate.code (apply_boost_to_results rs counts) = map candidate.code rs"
    by (simp add: eq boost_item_frame)
qed


theorem apply_boost_sorted_stable_witness:
  "apply_boost_to_results
     [mk_candidate (Some ''SP42'') (Some (4 / 5)), mk_candidate (Some ''SP43'') (Some (3 / 5))]
     [''SP42'' \<mapsto> 0]
     = [(mk_candidate (Some ''SP42'') (Some (4 / 5)))
          \<lparr>final_score := Some (4 / 5), boost_applied := Some 0, selection_count := Some 0\<rparr>,
        (mk_candidate (Some ''SP43'') (Some (3 / 5)))
          \<lparr>final_score := Some (3 / 5), boost_applied := Some 0, selection_count := Some 0\<rparr>]"
proof -
  let ?rs = "[mk_candidate (Some ''SP42'') (Some (4 / 5)), mk_candidate (Some ''SP43'') (Some (3 / 5))]"
  let ?counts = "[''SP42'' \<mapsto> (0::int)]"
  have h1: "\<forall>c\<in>set ?rs. candidate.score c \<noteq> None \<and> (has_code c \<or> final_score c = None)"
    by (simp add: mk_candidate_def del: not_None_eq)
  have h2: "sorted_wrt (\<lambda>a b. the (candidate.score b) \<le> the (candidate.score a)) ?rs"
    by (simp add: mk_candidate_def)
  have h3: "\<forall>k n. ?counts k = Some n \<longrightarrow> n = 0"
    by simp
  from apply_boost_sorted_stable [of ?rs ?counts] h1 h2 h3
  have "apply_boost_to_results ?rs ?counts = map (boost_item ?counts) ?rs"
    by blast
  then show ?thesis
    by (simp add: boost_item_def mk_candidate_def counts_get_def calculate_boost_def
          py_round_zero)
qed

lemma log10_2_bounds: "0 < log 10 (2::real) \<and> log 10 (2::real) < 1"
proof
  show "0 < log 10 (2::real)" by simp
  have "log 10 (2::real) < log 10 10" by (subst log_less_cancel_iff) simp_all
  then show "log 10 (2::real) < 1" by simp
qed

lemma calculate_boost_1: "calculate_boost 1 = log 10 2 / 10"
proof -
  have "log 10 2 / 10 \<le> (1 / 2 :: real)"
    using log10_2_bounds by linarith
  then have "min (log 10 2 / 10) (1 / 2 :: real) = log 10 2 / 10"
    by (rule min_absorb1)
  then show ?thesis
    by (simp add: calculate_boost_def MAX_BOOST_def BOOST_WEIGHT_def)
qed

text \<open>
  C4, as stated, fails: one recorded selection gives the boost \<open>log 10 2 * 0.1 > 0\<close>, and
  of two candidates with the same score the one selected once is moved in front.
\<close>

theorem single_selection_counterexample:
  "0 < calculate_boost 1
   \<and> map candidate.code
       (apply_boost_to_results
          [mk_candidate (Some ''A'') (Some (4 / 5)), mk_candidate (Some ''B'') (Some (4 / 5))]
          [''B'' \<mapsto> 1])
       = [Some ''B'', Some ''A'']"
proof
  show "0 < calculate_boost 1"
    using log10_2_bounds by (simp add: calculate_boost_1)
  let ?counts = "[''B'' \<mapsto> (1::int)]"
  let ?a = "boost_item ?counts (mk_candidate (Some ''A'') (Some (4 / 5)))"
  let ?b = "boost_item ?counts (mk_candidate (Some ''B'') (Some (4 / 5)))"
  have ka: "rank_key ?a = 4 / 5"
    by (simp add: rank_key_boost_item has_code_def mk_candidate_def base_score_of_def
          count_of_def counts_get_def calculate_boost_nonpos)
  have kb: "rank_key ?b = 4 / 5 + log 10 2 / 10"
    by (simp add: rank_key_boost_item has_code_def mk_candidate_def base_score_of_def
          count_of_def counts_get_def calculate_boost_1)
  have "\<not> rank_key ?b \<le> rank_key ?a"
    using log10_2_bounds by (simp only: ka kb) linarith
  then have "sort_key (\<lambda>x. - rank_key x) [?a, ?b] = [?b, ?a]"
    by simp
  then show "map candidate.code
       (apply_boost_to_results
          [mk_candidate (Some ''A'') (Some (4 / 5)), mk_candidate (Some ''B'') (Some (4 / 5))]
          [''B'' \<mapsto> 1])
       = [Some ''B'', Some ''A'']"
    by (simp add: apply_boost_to_results_def boost_item_frame mk_candidate_def)
qed

text \<open>
  C4, amended. A candidate whose code has the selection count zero (or no recorded
  count) gets the boost zero: its final score is its base score and the recorded boost is
  zero. A count of one gives the final score \<open>base + log 10 2 * 0.1\<close>, strictly above the
  base score.
\<close>

theorem boost_zero_or_one:
  "has_code c \<Longrightarrow>
     (count_of counts c = 0 \<longrightarrow>
        final_score (boost_item counts c) = Some (base_score_of c)
        \<and> boost_applied (boost_item counts c) = Some 0
        \<and> rank_key (boost_item counts c) = base_score_of c)
   \<and> (count_of counts c = 1 \<longrightarrow>
        final_score (boost_item counts c) = Some (base_score_of c + log 10 2 * 0.1)
        \<and> base_score_of c < base_score_of c + log 10 2 * 0.1)"
proof (intro conjI impI)
  assume h: "has_code c"
  { assume z: "count_of counts c = 0"
    show "final_score (boost_item counts c) = Some (base_score_of c)"
      by (simp add: boost_item_coded [OF h] z calculate_boost_nonpos)
    show "boost_applied (boost_item counts c) = Some 0"
      by (simp add: boost_item_coded [OF h] z calculate_boost_nonpos py_round_zero)
    show "rank_key (boost_item counts c) = base_score_of c"
      by (simp add: rank_key_boost_item [OF h] z calculate_boost_nonpos) }
  { assume o: "count_of counts c = 1"
    have b: "calculate_boost 1 = log 10 2 * 0.1"
      by (simp add: calculate_boost_1)
    show "final_score (boost_item counts c) = Some (base_score_of c + log 10 2 * 0.1)"
      by (simp add: boost_item_coded [OF h] o b)
    show "base_score_of c < base_score_of c + log 10 2 * 0.1"
      using log10_2_bounds by simp }
qed

theorem boost_zero_or_one_witness:
  "final_score (boost_item [''B'' \<mapsto> 1] (mk_candidate (Some ''A'') (Some (4 / 5)))) = Some (4 / 5)
   \<and> boost_applied (boost_item [''B'' \<mapsto> 1] (mk_candidate (Some ''A'') (Some (4 / 5)))) = Some 0
   \<and> final_score (boost_item [''B'' \<mapsto> 1] (mk_candidate (Some ''B'') (Some (4 / 5))))
       = Some (4 / 5 + log 10 2 * 0.1)"
  using boost_zero_or_one [of "mk_candidate (Some ''A'') (Some (4 / 5))" "[''B'' \<mapsto> 1]"]
    boost_zero_or_one [of "mk_candidate (Some ''B'') (Some (4 / 5))" "[''B'' \<mapsto> 1]"]
  by (simp add: has_code_def count_of_def counts_get_def base_score_of_def mk_candidate_def)

lemma sorted_wrt_before:
  fixes k :: "'b \<Rightarrow> real"
  assumes srt: "sorted_wrt (\<lambda>a b. k b \<le> k a) xs"
    and x: "x \<in> set xs" and y: "y \<in> set xs" and less: "k y < k x"
  shows "\<exists>i j. i < j \<and> j < length xs \<and> xs ! i = x \<and> xs ! j = y"
proof -
  from x obtain i where i: "i < length xs" "xs ! i = x" by (auto simp: in_set_conv_nth)
  from y obtain j where j: "j < length xs" "xs ! j = y" by (auto simp: in_set_conv_nth)
  have "\<not> j < i"
  proof
    assume "j < i"
    with srt i(1) have "k (xs ! i) \<le> k (xs ! j)" by (simp add: sorted_wrt_iff_nth_less)
    with i(2) j(2) less show False by simp
  qed
  moreover have "i \<noteq> j" using i(2) j(2) less by auto
  ultimately have "i < j" by simp
  with i j show ?thesis by blast
qed

text \<open>
  C10, as stated, fails on the place of a candidate without a code: the candidate is left
  as it was, and when it carries a \<open>final_score\<close> from before it is placed by that value,
  not by its \<open>score\<close>. Here the untouched candidate of score 0.1 comes before the
  candidate of final score 0.9.
\<close>

theorem stale_final_score_counterexample:
  "boost_item Map.empty ((mk_candidate (Some []) (Some (1 / 10)))\<lparr>final_score := Some 2\<rparr>)
     = (mk_candidate (Some []) (Some (1 / 10)))\<lparr>final_score := Some 2\<rparr>
   \<and> map candidate.score
       (apply_boost_to_results
          [mk_candidate (Some ''SP42'') (Some (9 / 10)),
           (mk_candidate (Some []) (Some (1 / 10)))\<lparr>final_score := Some 2\<rparr>]
          Map.empty)
       = [Some (1 / 10), Some (9 / 10)]"
  by (simp add: apply_boost_to_results_def boost_item_def mk_candidate_def counts_get_def
        calculate_boost_def rank_key_def py_round_zero)

text \<open>
  C10, amended. \<open>apply_boost_to_results\<close> returns a permutation of the candidates it was
  given, each with its code, its score and every other key unchanged. A candidate with no
  code, or an empty one, is returned as it was, and is placed by the \<open>final_score\<close> it
  already carries, else by its \<open>score\<close>, a missing score counting as 0: every candidate
  whose key after boosting is above that value comes before it.
\<close>

theorem apply_boost_frame:
  "mset (apply_boost_to_results rs counts) = mset (map (boost_item counts) rs)
   \<and> length (apply_boost_to_results rs counts) = length rs
   \<and> mset (map other_fields (apply_boost_to_results rs counts)) = mset (map other_fields rs)
   \<and> sorted_wrt (\<lambda>a b. rank_key b \<le> rank_key a) (apply_boost_to_results rs counts)
   \<and> (\<not> has_code c \<longrightarrow>
        boost_item counts c = c
        \<and> rank_key c =
            (case final_score c of
               Some f \<Rightarrow> f
             | None \<Rightarrow> (case candidate.score c of Some s \<Rightarrow> s | None \<Rightarrow> 0))
        \<and> (c \<in> set rs \<longrightarrow> c \<in> set (apply_boost_to_results rs counts))
        \<and> (c \<in> set rs \<and> d \<in> set rs \<and> rank_key c < rank_key (boost_item counts d) \<longrightarrow>
             (\<exists>i j. i < j \<and> j < length rs
                \<and> apply_boost_to_results rs counts ! i = boost_item counts d
                \<and> apply_boost_to_results rs counts ! j = c)))"
proof (intro conjI impI)
  show m: "mset (apply_boost_to_results rs counts) = mset (map (boost_item counts) rs)"
    by (simp add: apply_boost_to_results_def)
  show len: "length (apply_boost_to_results rs counts) = length rs"
    by (simp add: apply_boost_to_results_def)
  have e: "map other_fields (map (boost_item counts) rs) = map other_fields rs"
    by (induction rs) (simp_all add: other_fields_def boost_item_frame)
  have "mset (map other_fields (apply_boost_to_results rs counts))
          = image_mset other_fields (mset (apply_boost_to_results rs counts))"
    by simp
  also have "\<dots> = image_mset other_fields (mset (map (boost_item counts) rs))"
    by (simp only: m)
  also have "\<dots> = mset (map other_fields (map (boost_item counts) rs))"
    by (simp only: mset_map)
  also have "\<dots> = mset (map other_fields rs)"
    by (simp only: e)
  finally show "mset (map other_fields (apply_boost_to_results rs counts))
      = mset (map other_fields rs)" .
  show srt: "sorted_wrt (\<lambda>a b. rank_key b \<le> rank_key a) (apply_boost_to_results rs counts)"
    by (rule apply_boost_sorted)
  { assume nc: "\<not> has_code c"
    then show same: "boost_item counts c = c" by (rule boost_item_uncoded)
    show "rank_key c =
            (case final_score c of
               Some f \<Rightarrow> f
             | None \<Rightarrow> (case candidate.score c of Some s \<Rightarrow> s | None \<Rightarrow> 0))"
      by (simp add: rank_key_def)
    { assume "c \<in> set rs"
      then have "boost_item counts c \<in> set (apply_boost_to_results rs counts)"
        by (simp add: set_apply_boost)
      then show "c \<in> set (apply_boost_to_results rs counts)" by (simp only: same) }
    { assume h: "c \<in> set rs \<and> d \<in> set rs \<and> rank_key c < rank_key (boost_item counts d)"
      then have "boost_item counts c \<in> set (apply_boost_to_results rs counts)"
        by (simp add: set_apply_boost)
      then have c: "c \<in> set (apply_boost_to_results rs counts)" by (simp only: same)
      from h have d: "boost_item counts d \<in> set (apply_boost_to_results rs counts)"
        by (simp add: set_apply_boost)
      from h have less: "rank_key c < rank_key (boost_item counts d)" by simp
      from sorted_wrt_before [OF srt d c less]
      show "\<exists>i j. i < j \<and> j < length rs
                \<and> apply_boost_to_results rs counts ! i = boost_item counts d
                \<and> apply_boost_to_results rs counts ! j = c"
        by (simp only: len) } }
qed

theorem apply_boost_frame_witness:
  "apply_boost_to_results
     [mk_candidate None None,
      (mk_candidate (Some []) (Some (1 / 10)))\<lparr>final_score := Some 2\<rparr>,
      mk_candidate (Some ''SP42'') (Some (1 / 5))]
     Map.empty
     = [(mk_candidate (Some []) (Some (1 / 10)))\<lparr>final_score := Some 2\<rparr>,
        (mk_candidate (Some ''SP42'') (Some (1 / 5)))
          \<lparr>final_score := Some (1 / 5), boost_applied := Some 0, selection_count := Some 0\<rparr>,
        mk_candidate None None]
   \<and> boost_item Map.empty (mk_candidate None None) = mk_candidate None None
   \<and> rank_key (mk_candidate None None) = 0
   \<and> rank_key ((mk_candidate (Some []) (Some (1 / 10)))\<lparr>final_score := Some 2\<rparr>) = 2
   \<and> (\<exists>i j. i < j \<and> j < 3
        \<and> apply_boost_to_results
             [mk_candidate None None,
              (mk_candidate (Some []) (Some (1 / 10)))\<lparr>final_score := Some 2\<rparr>,
              mk_candidate (Some ''SP42'') (Some (1 / 5))]
             Map.empty ! i
           = boost_item Map.empty (mk_candidate (Some ''SP42'') (Some (1 / 5)))
        \<and> apply_boost_to_results
             [mk_candidate None None,
              (mk_candidate (Some []) (Some (1 / 10)))\<lparr>final_score := Some 2\<rparr>,
              mk_candidate (Some ''SP42'') (Some (1 / 5))]
             Map.empty ! j
           = mk_candidate None None)"
proof -
  let ?stale = "(mk_candidate (Some []) (Some (1 / 10)))\<lparr>final_score := Some 2\<rparr>"
  let ?none = "mk_candidate None None"
  let ?d = "mk_candidate (Some ''SP42'') (Some (1 / 5))"
  let ?rs = "[?none, ?stale, ?d]"
  have n1: "\<not> has_code ?none" and n2: "\<not> has_code ?stale"
    by (simp_all add: has_code_def mk_candidate_def)
  have kd: "rank_key (boost_item Map.empty ?d) = 1 / 5"
    by (simp add: boost_item_def mk_candidate_def counts_get_def calculate_boost_def
          rank_key_def)
  have out: "apply_boost_to_results ?rs Map.empty
      = [?stale,
         ?d\<lparr>final_score := Some (1 / 5), boost_applied := Some 0, selection_count := Some 0\<rparr>,
         ?none]"
    by (simp add: apply_boost_to_results_def boost_item_def mk_candidate_def counts_get_def
          calculate_boost_def rank_key_def py_round_zero)
  from apply_boost_frame [of ?rs Map.empty ?none ?d] n1
  have a: "boost_item Map.empty ?none = ?none"
    and b: "rank_key ?none =
        (case final_score ?none of
           Some f \<Rightarrow> f
         | None \<Rightarrow> (case candidate.score ?none of Some s \<Rightarrow> s | None \<Rightarrow> 0))"
    and pos: "?none \<in> set ?rs \<and> ?d \<in> set ?rs \<and> rank_key ?none < rank_key (boost_item Map.empty ?d)
        \<longrightarrow> (\<exists>i j. i < j \<and> j < length ?rs
               \<and> apply_boost_to_results ?rs Map.empty ! i = boost_item Map.empty ?d
               \<and> apply_boost_to_results ?rs Map.empty ! j = ?none)"
    by blast+
  from b have b': "rank_key ?none = 0" by (simp add: mk_candidate_def)
  from apply_boost_frame [of ?rs Map.empty ?stale ?d] n2
  have "rank_key ?stale =
        (case final_score ?stale of
           Some f \<Rightarrow> f
         | None \<Rightarrow> (case candidate.score ?stale of Some s \<Rightarrow> s | None \<Rightarrow> 0))"
    by blast
  then have c: "rank_key ?stale = 2" by (simp add: mk_candidate_def)
  have "\<exists>i j. i < j \<and> j < length ?rs
               \<and> apply_boost_to_results ?rs Map.empty ! i = boost_item Map.empty ?d
               \<and> apply_boost_to_results ?rs Map.empty ! j = ?none"
    using pos by (simp add: b' kd)
  moreover have "length ?rs = 3" by simp
  ultimately have p: "\<exists>i j. i < j \<and> j < 3
               \<and> apply_boost_to_results ?rs Map.empty ! i = boost_item Map.empty ?d
               \<and> apply_boost_to_results ?rs Map.empty ! j = ?none"
    by (simp only:)
  from out a b' c p show ?thesis by (intro conjI)
qed

section \<open>Pipeline: narrowing and the stage-1 cut\<close>

lemma argsort_perm_set:
  assumes "argsort_perm f"
  shows "set (f xs) = {..<length xs}" and "distinct (f xs)" and "length (f xs) = length xs"
proof -
  have m: "mset (f xs) = mset [0..<length xs]"
    using assms by (simp add: argsort_perm_def)
  from m have "set (f xs) = set [0..<length xs]" by (rule mset_eq_setD)
  then show "set (f xs) = {..<length xs}" by (simp add: lessThan_atLeast0)
  from m have "distinct (f xs) = distinct [0..<length xs]" by (rule mset_eq_imp_distinct_iff)
  then show "distinct (f xs)" by simp
  from m have "length (f xs) = length [0..<length xs]" by (rule mset_eq_length)
  then show "length (f xs) = length xs" by simp
qed

lemma stable_argsort_ok: "argsort_ok stable_argsort"
  by (simp add: argsort_ok_def argsort_perm_def stable_argsort_def)

lemma top_local_in_range:
  assumes "argsort_perm f" and "i \<in> set (take k (rev (f xs)))"
  shows "i < length xs"
proof -
  from assms(2) have "i \<in> set (f xs)" by (auto dest: in_set_takeD)
  then show ?thesis using argsort_perm_set(1) [OF assms(1), of xs] by simp
qed

lemma bm25_search_in_range:
  assumes "argsort_perm (argsort ix)" and "aligned ix" and "i \<in> set (bm25_search ix q k)"
  shows "i < length (codes ix)"
proof -
  from assms(3) have "i < length (get_scores ix (split (lower q)))"
    unfolding bm25_search_def Let_def by (rule top_local_in_range [OF assms(1)])
  with assms(2) show ?thesis by (simp add: aligned_def)
qed

lemma tfidf_rerank_subset:
  assumes p: "argsort_perm (argsort ix)" and r: "\<forall>i\<in>set ids. i < length (tfidf_matrix ix)"
  shows "\<exists>out. tfidf_rerank ix q ids k = Inr out \<and> set out \<subseteq> set ids \<and> length out \<le> k"
proof -
  let ?scores = "map (\<lambda>row. dot row (transform ix q)) (map (\<lambda>i. tfidf_matrix ix ! i) ids)"
  let ?top = "take k (rev (argsort ix ?scores))"
  have top: "\<forall>i\<in>set ?top. i < length ids"
    using top_local_in_range [OF p, of _ k ?scores] by simp
  have no1: "\<not> (\<exists>i\<in>set ids. length (tfidf_matrix ix) \<le> i)"
    using r by (simp add: not_le)
  have no2: "\<not> (\<exists>i\<in>set ?top. length ids \<le> i)"
    using top by (simp add: not_le)
  have eq: "tfidf_rerank ix q ids k = Inr (map (\<lambda>i. ids ! i) ?top)"
    unfolding tfidf_rerank_def Let_def using no1 no2 by (simp only: if_False)
  have "set (map (\<lambda>i. ids ! i) ?top) \<subseteq> set ids"
    using top by auto
  moreover have "length (map (\<lambda>i. ids ! i) ?top) \<le> k" by simp
  ultimately show ?thesis using eq by blast
qed

lemma semantic_rerank_subset:
  assumes p: "argsort_perm (argsort ix)"
    and r: "\<forall>i\<in>set ids. i < length (embeddings ix) \<and> i < length (codes ix) \<and> i < length (terms ix)"
  shows "\<exists>out. semantic_rerank ix q ids k = Inr out \<and> length out \<le> k
           \<and> (\<forall>h\<in>set out. \<exists>i\<in>set ids. hit_code h = codes ix ! i \<and> hit_term h = terms ix ! i)"
proof -
  let ?scores = "map (cos_sim ix (encode ix q)) (map (\<lambda>i. embeddings ix ! i) ids)"
  let ?top = "take k (rev (argsort ix ?scores))"
  let ?mk = "\<lambda>i. \<lparr>hit_code = codes ix ! (ids ! i), hit_term = terms ix ! (ids ! i),
                    hit_score = ?scores ! i\<rparr>"
  have top: "\<forall>i\<in>set ?top. i < length ids"
    using top_local_in_range [OF p, of _ k ?scores] by simp
  have no1: "\<not> (\<exists>i\<in>set ids. length (embeddings ix) \<le> i)"
    using r by (simp add: not_le)
  have no2: "\<not> (\<exists>i\<in>set ?top. length ids \<le> i \<or> length (codes ix) \<le> ids ! i
                  \<or> length (terms ix) \<le> ids ! i)"
    using top r by (auto simp: not_le)
  have eq: "semantic_rerank ix q ids k = Inr (map ?mk ?top)"
    unfolding semantic_rerank_def Let_def using no1 no2 by (simp only: if_False)
  have "\<forall>h\<in>set (map ?mk ?top). \<exists>i\<in>set ids. hit_code h = codes ix ! i \<and> hit_term h = terms ix ! i"
    using top by auto
  moreover have "length (map ?mk ?top) \<le> k" by simp
  ultimately show ?thesis using eq by blast
qed


text \<open>
  C1. Under the aligned index triple, and with an \<open>argsort\<close> that returns the indices of
  its argument, every search goes through: stage 2 returns document indices taken from
  the stage-1 survivors, stage 3 returns documents taken from the stage-2 survivors, and
  the final list has at most 10 entries.
\<close>

theorem stage_narrowing:
  assumes "argsort_perm (argsort ix)" and "aligned ix"
  shows "\<exists>tfidf_ids candidates.
           tfidf_rerank ix query (bm25_search ix query 100) 60 = Inr tfidf_ids
         \<and> set tfidf_ids \<subseteq> set (bm25_search ix query 100)
         \<and> semantic_rerank ix query tfidf_ids 10 = Inr candidates
         \<and> search_siddha ix query = Inr candidates
         \<and> (\<forall>h\<in>set candidates. \<exists>i\<in>set tfidf_ids.
               hit_code h = codes ix ! i \<and> hit_term h = terms ix ! i)
         \<and> hit_code ` set candidates \<subseteq> (\<lambda>i. codes ix ! i) ` set tfidf_ids
         \<and> length candidates \<le> 10"
proof -
  let ?bm = "bm25_search ix query 100"
  have r1: "\<forall>i\<in>set ?bm. i < length (codes ix)"
    using bm25_search_in_range [OF assms] by blast
  then have "\<forall>i\<in>set ?bm. i < length (tfidf_matrix ix)"
    using assms(2) by (simp add: aligned_def)
  from tfidf_rerank_subset [OF assms(1) this, of query 60]
  obtain tf where tf: "tfidf_rerank ix query ?bm 60 = Inr tf" and sub: "set tf \<subseteq> set ?bm"
    by blast
  from sub r1 have "\<forall>i\<in>set tf. i < length (codes ix)" by blast
  then have "\<forall>i\<in>set tf. i < length (embeddings ix) \<and> i < length (codes ix) \<and> i < length (terms ix)"
    using assms(2) by (simp add: aligned_def)
  from semantic_rerank_subset [OF assms(1) this, of query 10]
  obtain cs where cs: "semantic_rerank ix query tf 10 = Inr cs" and len: "length cs \<le> 10"
    and from_tf: "\<forall>h\<in>set cs. \<exists>i\<in>set tf. hit_code h = codes ix ! i \<and> hit_term h = terms ix ! i"
    by blast
  have s: "search_siddha ix query = Inr cs"
    by (simp add: search_siddha_def tf cs)
  from from_tf have "hit_code ` set cs \<subseteq> (\<lambda>i. codes ix ! i) ` set tf" by auto
  with tf sub cs s from_tf len show ?thesis by blast
qed

lemma two_docs_fields:
  "argsort (two_docs scores) = stable_argsort"
  "length scores = 2 \<Longrightarrow> aligned (two_docs scores)"
  by (simp_all add: two_docs_def aligned_def)

lemma stable_argsort_2:
  "stable_argsort [a, b] = (if a \<le> b then [0, 1] else [1, 0])"
proof -
  have "[0..<length [a, b]] = [0, 1]" by (simp add: upt_rec)
  then show ?thesis by (simp add: stable_argsort_def)
qed

theorem stage_narrowing_witness:
  "argsort_perm (argsort (two_docs [1, 3])) \<and> aligned (two_docs [1, 3])
   \<and> search_siddha (two_docs [1, 3]) ''fever'' =
       Inr [\<lparr>hit_code = ''SP43'', hit_term = ''Fever with chills'', hit_score = 3\<rparr>,
            \<lparr>hit_code = ''SP42'', hit_term = ''Fever disorder'', hit_score = 1\<rparr>]
   \<and> (\<exists>tfidf_ids candidates.
         tfidf_rerank (two_docs [1, 3]) ''fever'' (bm25_search (two_docs [1, 3]) ''fever'' 100) 60
           = Inr tfidf_ids
       \<and> set tfidf_ids \<subseteq> set (bm25_search (two_docs [1, 3]) ''fever'' 100)
       \<and> search_siddha (two_docs [1, 3]) ''fever'' = Inr candidates
       \<and> hit_code ` set candidates \<subseteq> (\<lambda>i. codes (two_docs [1, 3]) ! i) ` set tfidf_ids
       \<and> length candidates \<le> 10)"
proof -
  have a: "argsort_perm (argsort (two_docs [1, 3]))"
    using stable_argsort_ok by (simp add: two_docs_fields argsort_ok_def)
  have b: "aligned (two_docs [1, 3])"
    by (simp add: two_docs_fields)
  have bm: "bm25_search (two_docs [1, 3]) ''fever'' 100 = [1, 0]"
    by (simp add: bm25_search_def two_docs_def stable_argsort_2)
  have tf: "tfidf_rerank (two_docs [1, 3]) ''fever'' [1, 0] 60 = Inr [1, 0]"
    by (simp add: tfidf_rerank_def two_docs_def stable_argsort_2 dot_def)
  have sem: "semantic_rerank (two_docs [1, 3]) ''fever'' [1, 0] 10 =
       Inr [\<lparr>hit_code = ''SP43'', hit_term = ''Fever with chills'', hit_score = 3\<rparr>,
            \<lparr>hit_code = ''SP42'', hit_term = ''Fever disorder'', hit_score = 1\<rparr>]"
    by (simp add: semantic_rerank_def two_docs_def stable_argsort_2 dot_def)
  have s: "search_siddha (two_docs [1, 3]) ''fever'' =
       Inr [\<lparr>hit_code = ''SP43'', hit_term = ''Fever with chills'', hit_score = 3\<rparr>,
            \<lparr>hit_code = ''SP42'', hit_term = ''Fever disorder'', hit_score = 1\<rparr>]"
    by (simp only: search_siddha_def Let_def bm tf sum.case sem)
  from stage_narrowing [OF a b, of "''fever''"] a b s show ?thesis
    by blast
qed


lemma take_rev_top:
  fixes f :: "nat \<Rightarrow> real"
  assumes "sorted (map f p)"
  shows "sorted_wrt (\<lambda>i j. f j \<le> f i) (take k (rev p))"
    and "\<forall>i\<in>set (take k (rev p)). \<forall>j\<in>set (drop k (rev p)). f j \<le> f i"
proof -
  from assms have "sorted_wrt (\<lambda>i j. f i \<le> f j) p" by (simp add: sorted_map)
  then have r: "sorted_wrt (\<lambda>i j. f j \<le> f i) (rev p)" by (simp add: sorted_wrt_rev)
  then have "sorted_wrt (\<lambda>i j. f j \<le> f i) (take k (rev p) @ drop k (rev p))" by simp
  then show "sorted_wrt (\<lambda>i j. f j \<le> f i) (take k (rev p))"
    and "\<forall>i\<in>set (take k (rev p)). \<forall>j\<in>set (drop k (rev p)). f j \<le> f i"
    unfolding sorted_wrt_append by blast+
qed

lemma ties_by_filter:
  assumes "\<And>v. sorted_wrt R (filter (\<lambda>x. f x = v) ys)"
  shows "sorted_wrt (\<lambda>a b. f a = f b \<longrightarrow> R a b) ys"
  using assms
proof (induction ys)
  case Nil
  show ?case by simp
next
  case (Cons y ys)
  have tail: "sorted_wrt R (filter (\<lambda>x. f x = v) ys)" for v
    using Cons.prems [of v] by (cases "f y = v") simp_all
  have "\<forall>b\<in>set ys. f y = f b \<longrightarrow> R y b"
    using Cons.prems [of "f y"] by auto
  with Cons.IH [OF tail] show ?case by simp
qed

lemma stable_argsort_ties:
  "sorted_wrt (\<lambda>i j. xs ! i = xs ! j \<longrightarrow> i < j) (stable_argsort xs)"
proof (rule ties_by_filter)
  fix v
  have "filter (\<lambda>i. xs ! i = v) (stable_argsort xs) = filter (\<lambda>i. xs ! i = v) [0..<length xs]"
    unfolding stable_argsort_def by (rule sort_key_stable)
  moreover have "sorted_wrt (<) (filter (\<lambda>i. xs ! i = v) [0..<length xs])"
    by (rule sorted_wrt_filter) (simp add: sorted_wrt_upt)
  ultimately show "sorted_wrt (<) (filter (\<lambda>i. xs ! i = v) (stable_argsort xs))"
    by simp
qed

lemma bm25_search_eq:
  "bm25_search ix q k = take k (rev (argsort ix (get_scores ix (split (lower q)))))"
  by (simp add: bm25_search_def)

text \<open>
  C5, as stated, fails on a corpus of two documents with equal scores: stage 1 keeps two
  documents, not 100, and the document later in the catalog comes first.
\<close>

theorem bm25_tie_counterexample:
  "bm25_search (two_docs [1, 1]) ''fever'' 100 = [1, 0]
   \<and> length (bm25_search (two_docs [1, 1]) ''fever'' 100) \<noteq> 100"
  by (simp add: bm25_search_def two_docs_def stable_argsort_2)

text \<open>
  C5, amended. Stage 1 keeps the \<open>min 100 n\<close> documents of highest BM25 score out of the
  \<open>n\<close> of the corpus, each once, in descending order of score: no document left out
  scores above a document kept. Equal scores are not ordered by catalog position: their
  order is that of the reversed ascending \<open>argsort\<close>, and with a stable \<open>argsort\<close> the
  document later in the catalog comes first.
\<close>

theorem bm25_search_top:
  assumes "argsort_ok (argsort ix)"
  shows "length (bm25_search ix query 100)
           = min 100 (length (get_scores ix (split (lower query))))
       \<and> distinct (bm25_search ix query 100)
       \<and> set (bm25_search ix query 100) \<subseteq> {..<length (get_scores ix (split (lower query)))}
       \<and> sorted_wrt (\<lambda>i j. get_scores ix (split (lower query)) ! j
                             \<le> get_scores ix (split (lower query)) ! i)
           (bm25_search ix query 100)
       \<and> (\<forall>i\<in>set (bm25_search ix query 100).
            \<forall>j<length (get_scores ix (split (lower query))).
              j \<notin> set (bm25_search ix query 100) \<longrightarrow>
              get_scores ix (split (lower query)) ! j \<le> get_scores ix (split (lower query)) ! i)
       \<and> (argsort ix = stable_argsort \<longrightarrow>
            sorted_wrt (\<lambda>i j. get_scores ix (split (lower query)) ! i
                               = get_scores ix (split (lower query)) ! j \<longrightarrow> j < i)
              (bm25_search ix query 100))"
proof -
  let ?sc = "get_scores ix (split (lower query))"
  let ?p = "argsort ix ?sc"
  let ?out = "bm25_search ix query 100"
  have out: "?out = take 100 (rev ?p)" by (rule bm25_search_eq)
  from assms have perm: "argsort_perm (argsort ix)" and srt: "sorted (map (\<lambda>i. ?sc ! i) ?p)"
    by (simp_all add: argsort_ok_def)
  note ps = argsort_perm_set [OF perm, of ?sc]
  have len: "length ?out = min 100 (length ?sc)"
    by (simp add: out ps(3) min.commute)
  have dist: "distinct ?out"
    by (simp add: out ps(2) distinct_take)
  have sub: "set ?out \<subseteq> {..<length ?sc}"
  proof
    fix i assume "i \<in> set ?out"
    then have "i \<in> set ?p" by (auto simp: out dest: in_set_takeD)
    then show "i \<in> {..<length ?sc}" by (simp add: ps(1))
  qed
  note top = take_rev_top [of "\<lambda>i. ?sc ! i" ?p 100, OF srt]
  have desc: "sorted_wrt (\<lambda>i j. ?sc ! j \<le> ?sc ! i) ?out"
    using top(1) by (simp only: out)
  have best: "\<forall>i\<in>set ?out. \<forall>j<length ?sc. j \<notin> set ?out \<longrightarrow> ?sc ! j \<le> ?sc ! i"
  proof (intro ballI allI impI)
    fix i j assume i: "i \<in> set ?out" and j: "j < length ?sc" and nj: "j \<notin> set ?out"
    from j have "j \<in> set (rev ?p)" by (simp add: ps(1))
    then have "j \<in> set (take 100 (rev ?p) @ drop 100 (rev ?p))"
      by (simp only: append_take_drop_id)
    then have "j \<in> set (take 100 (rev ?p)) \<or> j \<in> set (drop 100 (rev ?p))"
      by (simp only: set_append Un_iff)
    with nj have "j \<in> set (drop 100 (rev ?p))" by (simp only: out) blast
    with i top(2) show "?sc ! j \<le> ?sc ! i" by (simp add: out)
  qed
  have ties: "argsort ix = stable_argsort \<longrightarrow>
      sorted_wrt (\<lambda>i j. ?sc ! i = ?sc ! j \<longrightarrow> j < i) ?out"
  proof
    assume st: "argsort ix = stable_argsort"
    have "sorted_wrt (\<lambda>i j. ?sc ! i = ?sc ! j \<longrightarrow> i < j) ?p"
      by (simp only: st stable_argsort_ties)
    then have "sorted_wrt (\<lambda>i j. ?sc ! j = ?sc ! i \<longrightarrow> j < i) (rev ?p)"
      by (simp add: sorted_wrt_rev)
    then have "sorted_wrt (\<lambda>i j. ?sc ! i = ?sc ! j \<longrightarrow> j < i) (rev ?p)"
      by (simp add: eq_commute)
    then show "sorted_wrt (\<lambda>i j. ?sc ! i = ?sc ! j \<longrightarrow> j < i) ?out"
      by (simp only: out sorted_wrt_take)
  qed
  from len dist sub desc best ties show ?thesis by blast
qed

theorem bm25_search_top_witness:
  "argsort_ok (argsort (two_docs [2, 2]))
   \<and> bm25_search (two_docs [2, 2]) ''fever'' 100 = [1, 0]
   \<and> length (bm25_search (two_docs [2, 2]) ''fever'' 100) = 2
   \<and> sorted_wrt (\<lambda>i j. [2, 2 :: real] ! i = [2, 2] ! j \<longrightarrow> j < i)
       (bm25_search (two_docs [2, 2]) ''fever'' 100)"
proof -
  have a: "argsort_ok (argsort (two_docs [2, 2]))"
    using stable_argsort_ok by (simp add: two_docs_fields)
  have st: "argsort (two_docs [2, 2]) = stable_argsort"
    by (rule two_docs_fields)
  have sc: "get_scores (two_docs [2, 2]) (split (lower ''fever'')) = [2, 2]"
    by (simp add: two_docs_def)
  have bm: "bm25_search (two_docs [2, 2]) ''fever'' 100 = [1, 0]"
    by (simp add: bm25_search_def two_docs_def stable_argsort_2)
  from bm25_search_top [OF a, of "''fever''"] st
  have "length (bm25_search (two_docs [2, 2]) ''fever'' 100) = min 100 (length [2, 2 :: real])
      \<and> sorted_wrt (\<lambda>i j. [2, 2 :: real] ! i = [2, 2] ! j \<longrightarrow> j < i)
          (bm25_search (two_docs [2, 2]) ''fever'' 100)"
    by (simp only: sc)
  with a bm show ?thesis by simp
qed

section \<open>Autocomplete: the fuzzy stage and the returned dictionary\<close>

lemma lower_char_keep:
  "keep_char (lower_char c) \<Longrightarrow> lower_char (lower_char c) = lower_char c"
  by (auto simp: lower_char_def keep_char_def Let_def split: if_splits)

lemma normalize_idem: "normalize_text (normalize_text text) = normalize_text text"
proof -
  have "map lower_char (filter keep_char (map lower_char text))
          = filter keep_char (map lower_char text)"
    by (rule map_idI) (auto simp: lower_char_keep)
  then show ?thesis by (simp add: normalize_text_def lower_def)
qed

lemma fold_collect:
  "fold (\<lambda>x acc. if P x then acc @ [g x] else acc) xs acc0 = acc0 @ map g (filter P xs)"
  by (induction xs arbitrary: acc0) simp_all

lemma Min_set_cons2:
  fixes t :: nat
  shows "Min (set (t # c # ws))
           = (if ws \<noteq> [] then min t (min c (min_list ws)) else min t c)"
proof (cases "ws = []")
  case True
  then show ?thesis by simp
next
  case False
  then have "min_list ws = Min (set ws)" by (rule min_list_Min)
  with False show ?thesis by simp
qed

lemma fuzzy_step_best:
  "fuzzy_step q m item matches =
     (if best_distance q item \<le> m then matches @ [(item, best_distance q item)] else matches)"
proof -
  let ?t = "levenshtein_distance q (normalize_text (item_term item))"
  let ?c = "levenshtein_distance q (normalize_text (item_code item))"
  let ?ws = "map (levenshtein_distance q)
               (filter (\<lambda>word. 2 < length word) (split (normalize_text (item_term item))))"
  have "(if ?ws \<noteq> [] then min ?t (min ?c (min_list ?ws)) else min ?t ?c)
          = Min (set (?t # ?c # ?ws))"
    by (rule Min_set_cons2 [symmetric])
  then show ?thesis
    by (simp add: fuzzy_step_def best_distance_def candidate_distances_def Let_def)
qed

lemma fuzzy_match_terms_spec:
  "fuzzy_match_terms (normalize_text query) dataset 2 = spec_fuzzy (normalize_text query) dataset"
proof -
  let ?q = "normalize_text query"
  have "fold (fuzzy_step ?q 2) dataset []
          = fold (\<lambda>item acc. if best_distance ?q item \<le> 2
                               then acc @ [(item, best_distance ?q item)] else acc) dataset []"
    by (rule arg_cong [where f = "\<lambda>f. fold f dataset []"]) (simp add: fuzzy_step_best fun_eq_iff)
  also have "\<dots> = map (\<lambda>item. (item, best_distance ?q item))
                      (filter (\<lambda>item. best_distance ?q item \<le> 2) dataset)"
    by (simp add: fold_collect)
  also have "\<dots> = filter (\<lambda>m. snd m \<le> 2) (map (\<lambda>item. (item, best_distance ?q item)) dataset)"
    by (simp add: filter_map comp_def)
  finally show ?thesis
    by (simp add: fuzzy_match_terms_def spec_fuzzy_def normalize_idem)
qed

lemma spec_fuzzy_props:
  "sorted (map snd (spec_fuzzy q dataset))"
  "set (spec_fuzzy q dataset)
     = {(item, best_distance q item) | item. item \<in> set dataset \<and> best_distance q item \<le> 2}"
  by (auto simp: spec_fuzzy_def)

lemma autocomplete_short:
  "length (normalize_text query) < 2 \<Longrightarrow>
     autocomplete_search query dataset
       = [(''results'', Items []), (''fuzzy_suggestions'', Suggestions [])]"
  by (simp add: autocomplete_search_def)

lemma autocomplete_long:
  assumes "2 \<le> length (normalize_text query)"
  shows "\<exists>results suggestions.
       autocomplete_search query dataset =
         [(''results'', Items results), (''fuzzy_suggestions'', Suggestions suggestions),
          (''has_fuzzy'', Flag (suggestions \<noteq> []))]
     \<and> length results \<le> 20
     \<and> (if local_matches (normalize_text query) dataset = [] \<and> 3 \<le> length (normalize_text query)
        then results = map fst (take 10 (spec_fuzzy (normalize_text query) dataset))
           \<and> suggestions = map suggest (take 5 (spec_fuzzy (normalize_text query) dataset))
        else results = take 20 (local_matches (normalize_text query) dataset) \<and> suggestions = [])
     \<and> sorted (map snd (spec_fuzzy (normalize_text query) dataset))
     \<and> set (spec_fuzzy (normalize_text query) dataset)
         = {(item, best_distance (normalize_text query) item) | item.
              item \<in> set dataset \<and> best_distance (normalize_text query) item \<le> 2}"
proof -
  let ?q = "normalize_text query"
  let ?local = "local_matches ?q dataset"
  let ?fm = "spec_fuzzy ?q dataset"
  from assms have long: "\<not> length ?q < 2" by simp
  note props = spec_fuzzy_props [of ?q dataset]
  show ?thesis
  proof (cases "?local = [] \<and> 3 \<le> length ?q")
    case True
    show ?thesis
    proof (cases "?fm = []")
      case False
      have run: "autocomplete_search query dataset =
          [(''results'', Items (take 20 (map fst (take 10 ?fm)))),
           (''fuzzy_suggestions'', Suggestions (map suggest (take 5 ?fm))),
           (''has_fuzzy'', Flag (map suggest (take 5 ?fm) \<noteq> []))]"
        using long True False
        by (simp add: autocomplete_search_def fuzzy_match_terms_spec Let_def)
      have short: "take 20 (map fst (take 10 ?fm)) = map fst (take 10 ?fm)" by simp
      show ?thesis
        by (rule exI [of _ "map fst (take 10 ?fm)"], rule exI [of _ "map suggest (take 5 ?fm)"])
           (use run short True props in simp)
    next
      case empty: True
      have run: "autocomplete_search query dataset =
          [(''results'', Items []), (''fuzzy_suggestions'', Suggestions []),
           (''has_fuzzy'', Flag False)]"
        using long True empty
        by (simp add: autocomplete_search_def fuzzy_match_terms_spec Let_def)
      show ?thesis
        by (rule exI [of _ "[]"], rule exI [of _ "[]"]) (use run True empty props in simp)
    qed
  next
    case False
    have run: "autocomplete_search query dataset =
        [(''results'', Items (take 20 ?local)), (''fuzzy_suggestions'', Suggestions []),
         (''has_fuzzy'', Flag False)]"
      using long False
      by (auto simp: autocomplete_search_def Let_def)
    from False have no: "(?local = [] \<and> 3 \<le> length ?q) = False" by simp
    show ?thesis
      by (rule exI [of _ "take 20 ?local"], rule exI [of _ "[]"])
         (simp only: no if_False run props, simp)
  qed
qed


text \<open>
  C7. Whatever the query, the results are at most 20. On a query whose normalized form
  has at least 2 characters, the fuzzy stage decides the answer exactly when the prefix
  and substring stages found nothing and the normalized query has at least 3 characters.
  It gives every document the minimum of its edit distances (to the term, to the code, to
  each word of the term longer than 2), keeps the documents within distance 2 in
  ascending order of distance, returns the best 5 as suggestions and the best 10 as
  results; otherwise the results are the local matches and there is no suggestion.
\<close>

theorem autocomplete_fuzzy_stage:
  "(\<exists>results. map_of (autocomplete_search query dataset) ''results'' = Some (Items results)
       \<and> length results \<le> 20)
   \<and> (2 \<le> length (normalize_text query) \<longrightarrow>
        (\<exists>results suggestions.
           autocomplete_search query dataset =
             [(''results'', Items results), (''fuzzy_suggestions'', Suggestions suggestions),
              (''has_fuzzy'', Flag (suggestions \<noteq> []))]
         \<and> (if local_matches (normalize_text query) dataset = []
                \<and> 3 \<le> length (normalize_text query)
             then results = map fst (take 10 (spec_fuzzy (normalize_text query) dataset))
                \<and> suggestions = map suggest (take 5 (spec_fuzzy (normalize_text query) dataset))
             else results = take 20 (local_matches (normalize_text query) dataset)
                \<and> suggestions = [])
         \<and> sorted (map snd (spec_fuzzy (normalize_text query) dataset))
         \<and> set (spec_fuzzy (normalize_text query) dataset)
             = {(item, best_distance (normalize_text query) item) | item.
                  item \<in> set dataset \<and> best_distance (normalize_text query) item \<le> 2}))"
proof (intro conjI impI)
  show "\<exists>results. map_of (autocomplete_search query dataset) ''results'' = Some (Items results)
       \<and> length results \<le> 20"
  proof (cases "length (normalize_text query) < 2")
    case True
    then show ?thesis by (simp add: autocomplete_short)
  next
    case False
    then have "2 \<le> length (normalize_text query)" by simp
    from autocomplete_long [OF this, of dataset]
    obtain results suggestions where
      "autocomplete_search query dataset =
         [(''results'', Items results), (''fuzzy_suggestions'', Suggestions suggestions),
          (''has_fuzzy'', Flag (suggestions \<noteq> []))]"
      and "length results \<le> 20"
      by blast
    then show ?thesis by simp
  qed
next
  assume "2 \<le> length (normalize_text query)"
  from autocomplete_long [OF this, of dataset]
  show "\<exists>results suggestions.
           autocomplete_search query dataset =
             [(''results'', Items results), (''fuzzy_suggestions'', Suggestions suggestions),
              (''has_fuzzy'', Flag (suggestions \<noteq> []))]
         \<and> (if local_matches (normalize_text query) dataset = []
                \<and> 3 \<le> length (normalize_text query)
             then results = map fst (take 10 (spec_fuzzy (normalize_text query) dataset))
                \<and> suggestions = map suggest (take 5 (spec_fuzzy (normalize_text query) dataset))
             else results = take 20 (local_matches (normalize_text query) dataset)
                \<and> suggestions = [])
         \<and> sorted (map snd (spec_fuzzy (normalize_text query) dataset))
         \<and> set (spec_fuzzy (normalize_text query) dataset)
             = {(item, best_distance (normalize_text query) item) | item.
                  item \<in> set dataset \<and> best_distance (normalize_text query) item \<le> 2}"
    by blast
qed

lemma febr_norm: "normalize_text ''febr'' = ''febr''"
  by code_simp

lemma febr_local: "local_matches ''febr'' [fever_item] = []"
  by code_simp

lemma febr_fuzzy: "fuzzy_match_terms ''febr'' [fever_item] 2 = [(fever_item, 2)]"
  by code_simp

theorem autocomplete_fuzzy_stage_witness:
  "2 \<le> length (normalize_text ''febr'')
   \<and> local_matches (normalize_text ''febr'') [fever_item] = []
   \<and> spec_fuzzy (normalize_text ''febr'') [fever_item] = [(fever_item, 2)]
   \<and> autocomplete_search ''febr'' [fever_item] =
       [(''results'', Items [fever_item]),
        (''fuzzy_suggestions'', Suggestions [suggest (fever_item, 2)]),
        (''has_fuzzy'', Flag True)]"
proof -
  have h: "2 \<le> length (normalize_text ''febr'')"
    by (simp add: febr_norm)
  have sp: "spec_fuzzy (normalize_text ''febr'') [fever_item] = [(fever_item, 2)]"
    using fuzzy_match_terms_spec [of "''febr''" "[fever_item]"]
    by (simp only: febr_norm febr_fuzzy)
  have lo: "local_matches (normalize_text ''febr'') [fever_item] = []"
    by (simp only: febr_norm febr_local)
  from autocomplete_fuzzy_stage [of "''febr''" "[fever_item]"] h
  obtain results suggestions where
    run: "autocomplete_search ''febr'' [fever_item] =
         [(''results'', Items results), (''fuzzy_suggestions'', Suggestions suggestions),
          (''has_fuzzy'', Flag (suggestions \<noteq> []))]"
    and br: "if local_matches (normalize_text ''febr'') [fever_item] = []
               \<and> 3 \<le> length (normalize_text ''febr'')
        then results = map fst (take 10 (spec_fuzzy (normalize_text ''febr'') [fever_item]))
           \<and> suggestions = map suggest (take 5 (spec_fuzzy (normalize_text ''febr'') [fever_item]))
        else results = take 20 (local_matches (normalize_text ''febr'') [fever_item])
           \<and> suggestions = []"
    by blast
  from sp have sp': "spec_fuzzy ''febr'' [fever_item] = [(fever_item, 2)]"
    by (simp only: febr_norm)
  from br have "results = [fever_item] \<and> suggestions = [suggest (fever_item, 2)]"
    by (simp add: febr_norm febr_local sp')
  with run h lo sp show ?thesis by simp
qed

text \<open>
  C8, as stated, fails: turning \<open>febr\<close> into \<open>fever\<close> takes two edits (substitute \<open>b\<close> by
  \<open>v\<close>, insert \<open>e\<close>), and the suggestion for \<open>Fever disorder\<close> carries the distance 2.
\<close>

theorem febr_distance_counterexample:
  "levenshtein_distance ''febr'' ''fever'' \<noteq> 1
   \<and> map_of (autocomplete_search ''febr'' [fever_item]) ''fuzzy_suggestions''
       \<noteq> Some (Suggestions [suggest (fever_item, 1)])"
  by code_simp

text \<open>
  C8, amended. The query \<open>febr\<close> against the catalog holding only the document with the
  term \<open>Fever disorder\<close> has no prefix and no substring match; the document is returned
  in \<open>results\<close> and in \<open>fuzzy_suggestions\<close>, there with the distance 2, and \<open>has_fuzzy\<close> is
  true. The edit distance of \<open>febr\<close> and \<open>fever\<close> is 2.
\<close>

theorem febr_fever_disorder:
  "local_matches (normalize_text ''febr'') [fever_item] = []
   \<and> autocomplete_search ''febr'' [fever_item] =
       [(''results'', Items [fever_item]),
        (''fuzzy_suggestions'',
         Suggestions [\<lparr>sug_item = fever_item, sug_distance = 2,
                       suggestion_text =
                         ''Did you mean '' @ [CHR 0x27] @ ''Fever disorder'' @ [CHR 0x27] @ ''?''\<rparr>]),
        (''has_fuzzy'', Flag True)]
   \<and> levenshtein_distance ''febr'' ''fever'' = 2"
  by code_simp

text \<open>
  C6. The claim is that a query whose normalized form has fewer than 2 characters gets the
  dictionary with the three keys \<open>results\<close>, \<open>fuzzy_suggestions\<close> and \<open>has_fuzzy\<close>. The
  early return leaves \<open>has_fuzzy\<close> out: for the query \<open>f\<close> the dictionary has two keys,
  and the subscript the routes make on \<open>has_fuzzy\<close> raises \<open>KeyError\<close>.
\<close>

theorem autocomplete_short_query_keys:
  "autocomplete_search ''f'' [fever_item]
     = [(''results'', Items []), (''fuzzy_suggestions'', Suggestions [])]
   \<and> map_of (autocomplete_search ''f'' [fever_item]) ''has_fuzzy'' = None
   \<and> route_fields ''f'' [fever_item] = Inl KeyError
   \<and> map fst (autocomplete_search ''fe'' [fever_item])
       = [''results'', ''fuzzy_suggestions'', ''has_fuzzy'']"
  by code_simp

end
